theory Spec2Isabelle
  imports Complex_Main "HOL-Library.AList"
begin

section \<open>Configuration\<close>

text \<open>
  The constants of \<^verbatim>\<open>main.py\<close> that the modelled functions read. Times are seconds,
  as real numbers.
\<close>

definition MAX_SESSIONS :: nat where
  "MAX_SESSIONS = 500"

definition SESSION_TTL_MINUTES :: nat where
  "SESSION_TTL_MINUTES = 30"

definition MAX_CONVERSATION_HISTORY :: nat where
  "MAX_CONVERSATION_HISTORY = 10"

definition MAX_CALLBACK_RETRIES :: nat where
  "MAX_CALLBACK_RETRIES = 3"

definition CIRCUIT_BREAKER_THRESHOLD :: nat where
  "CIRCUIT_BREAKER_THRESHOLD = 5"

definition CIRCUIT_BREAKER_TIMEOUT :: real where
  "CIRCUIT_BREAKER_TIMEOUT = 300"

definition SCAM_KEYWORDS :: "string list" where
  "SCAM_KEYWORDS = [''urgent'', ''verify'', ''otp'', ''cvv'', ''block'', ''suspend'',
     ''winner'', ''prize'', ''refund'', ''account'', ''password'', ''confirm'']"

section \<open>Text\<close>

text \<open>
  An inbound text is a \<^typ>\<open>string\<close>: one \<^typ>\<open>char\<close> per Python character, the
  \<^typ>\<open>char\<close> of value \<open>n\<close> standing for the code point \<open>n\<close>. So \<^const>\<open>length\<close> is
  Python's \<^verbatim>\<open>len\<close>, and the texts covered are those whose code points are below 256.
  The classes below are Python's on that range: \<^verbatim>\<open>[a-zA-Z]\<close> and \<^verbatim>\<open>[0-9]\<close> are ASCII
  ranges, \<^verbatim>\<open>\d\<close> has no decimal digit beyond ASCII there, \<^verbatim>\<open>\s\<close> is \<^verbatim>\<open>str.isspace\<close> and
  \<^verbatim>\<open>\w\<close> is \<^verbatim>\<open>str.isalnum\<close> or the underscore.
\<close>

definition ord :: "char \<Rightarrow> nat" where
  "ord c = of_char c"

definition is_ascii_alpha :: "char \<Rightarrow> bool" where
  "is_ascii_alpha c = ((65 \<le> ord c \<and> ord c \<le> 90) \<or> (97 \<le> ord c \<and> ord c \<le> 122))"

definition is_digit :: "char \<Rightarrow> bool" where
  "is_digit c = (48 \<le> ord c \<and> ord c \<le> 57)"

definition is_space :: "char \<Rightarrow> bool" where
  "is_space c = ((9 \<le> ord c \<and> ord c \<le> 13) \<or> (28 \<le> ord c \<and> ord c \<le> 32)
     \<or> ord c = 133 \<or> ord c = 160)"

definition is_word :: "char \<Rightarrow> bool" where
  "is_word c = (is_ascii_alpha c \<or> is_digit c \<or> ord c = 95
     \<or> ord c \<in> {170, 178, 179, 181, 185, 186, 188, 189, 190}
     \<or> (192 \<le> ord c \<and> ord c \<le> 214) \<or> (216 \<le> ord c \<and> ord c \<le> 246)
     \<or> 248 \<le> ord c)"

text \<open>\<^verbatim>\<open>str.lower\<close>: the upper-case letters below 256 are A to Z and the code points
  192 to 222 without the multiplication sign 215; each is 32 below its lower-case letter.\<close>

definition lower_char :: "char \<Rightarrow> char" where
  "lower_char c =
     (if (65 \<le> ord c \<and> ord c \<le> 90) \<or> (192 \<le> ord c \<and> ord c \<le> 214)
          \<or> (216 \<le> ord c \<and> ord c \<le> 222)
      then char_of (ord c + 32) else c)"

definition lower :: "string \<Rightarrow> string" where
  "lower s = map lower_char s"

text \<open>\<^verbatim>\<open>s.count(sub)\<close>: the occurrences of \<open>sub\<close> in \<open>s\<close> found from left to right, the
  search resuming behind each occurrence found (so they do not overlap); the empty
  \<open>sub\<close> is found \<open>len(s) + 1\<close> times.\<close>

fun str_count :: "string \<Rightarrow> string \<Rightarrow> nat" where
  "str_count sub [] = (if sub = [] then 1 else 0)"
| "str_count sub (c # cs) =
     (if sub = [] then Suc (Suc (length cs))
      else if take (length sub) (c # cs) = sub
           then Suc (str_count sub (drop (length sub - 1) cs))
           else str_count sub cs)"

text \<open>\<^verbatim>\<open>sub in s\<close>.\<close>

fun str_contains :: "string \<Rightarrow> string \<Rightarrow> bool" where
  "str_contains sub [] = (sub = [])"
| "str_contains sub (c # cs) = (take (length sub) (c # cs) = sub \<or> str_contains sub cs)"

section \<open>The three precompiled patterns\<close>

text \<open>
  \<^verbatim>\<open>pattern.findall(message)\<close> scans the text from left to right: at each position it
  tries to match there; a match is reported and the scan resumes behind it, otherwise the
  scan moves one character on. A matcher gets the character before the position (for
  \<^verbatim>\<open>\b\<close>) and the text from the position on, and returns the length of the match that
  the backtracking engine finds there. None of the three patterns matches the empty text.
\<close>

fun findall :: "(char option \<Rightarrow> string \<Rightarrow> nat option) \<Rightarrow> char option \<Rightarrow> string \<Rightarrow> string list" where
  "findall m prev [] = []"
| "findall m prev (c # cs) =
     (case m prev (c # cs) of
        Some (Suc n) \<Rightarrow> take (Suc n) (c # cs) # findall m (Some (last (c # take n cs))) (drop n cs)
      | _ \<Rightarrow> findall m (Some c) cs)"

text \<open>
  \<^verbatim>\<open>UPI_PATTERN = [a-zA-Z0-9.\-_]{2,}@[a-zA-Z]{3,}\<close>. The \<^verbatim>\<open>@\<close> is outside the first
  class, so the only split the engine can succeed with takes the whole run of class
  characters at the position; the domain is the whole run of letters behind the \<^verbatim>\<open>@\<close>.
\<close>

definition upi_local :: "char \<Rightarrow> bool" where
  "upi_local c = (is_ascii_alpha c \<or> is_digit c \<or> c = CHR ''.'' \<or> c = CHR ''-'' \<or> c = CHR ''_'')"

definition upi_match :: "char option \<Rightarrow> string \<Rightarrow> nat option" where
  "upi_match prev s =
     (let local_part = takeWhile upi_local s in
      case dropWhile upi_local s of
        [] \<Rightarrow> None
      | c # rest \<Rightarrow>
          let domain = takeWhile is_ascii_alpha rest in
          if 2 \<le> length local_part \<and> c = CHR ''@'' \<and> 3 \<le> length domain
          then Some (length local_part + 1 + length domain) else None)"

text \<open>
  \<^verbatim>\<open>BANK_ACCOUNT_PATTERN = \b\d{9,18}\b\<close>. A digit is a word character, so the first
  \<^verbatim>\<open>\b\<close> holds when no word character precedes, and the second when no word character
  follows. Inside a run of digits the second \<^verbatim>\<open>\b\<close> fails, so the match is the whole
  run, of 9 to 18 digits.
\<close>

definition account_match :: "char option \<Rightarrow> string \<Rightarrow> nat option" where
  "account_match prev s =
     (let run = takeWhile is_digit s;
          boundary_before = (case prev of None \<Rightarrow> True | Some p \<Rightarrow> \<not> is_word p);
          boundary_after = (case dropWhile is_digit s of [] \<Rightarrow> True | c # rest \<Rightarrow> \<not> is_word c)
      in if boundary_before \<and> 9 \<le> length run \<and> length run \<le> 18 \<and> boundary_after
         then Some (length run) else None)"

text \<open>
  \<^verbatim>\<open>URL_PATTERN = http[s]?://[^\s]+\<close>: \<^verbatim>\<open>http\<close>, an \<^verbatim>\<open>s\<close> when one is there, \<^verbatim>\<open>://\<close>,
  and the whole run of characters that are not white space, at least one.
\<close>

definition url_match :: "char option \<Rightarrow> string \<Rightarrow> nat option" where
  "url_match prev s =
     (let after_http = drop 4 s;
          s_len = (if take 1 after_http = ''s'' then 1 else 0);
          after_scheme = drop s_len after_http;
          body = takeWhile (\<lambda>c. \<not> is_space c) (drop 3 after_scheme)
      in if take 4 s = ''http'' \<and> take 3 after_scheme = ''://'' \<and> body \<noteq> []
         then Some (4 + s_len + 3 + length body) else None)"

definition UPI_PATTERN_findall :: "string \<Rightarrow> string list" where
  "UPI_PATTERN_findall message = findall upi_match None message"

definition BANK_ACCOUNT_PATTERN_findall :: "string \<Rightarrow> string list" where
  "BANK_ACCOUNT_PATTERN_findall message = findall account_match None message"

definition URL_PATTERN_findall :: "string \<Rightarrow> string list" where
  "URL_PATTERN_findall message = findall url_match None message"

section \<open>Session state\<close>

text \<open>
  Replies are literals of the program, one of them outside the range of \<^typ>\<open>char\<close>, so
  an outbound text is the list of its code points.
\<close>

type_synonym reply_text = "nat list"

definition literal :: "string \<Rightarrow> reply_text" where
  "literal s = map of_char s"

record history_entry =
  scammer :: string
  agent :: reply_text

datatype category = early | middle | late

text \<open>
  \<^verbatim>\<open>class SessionState\<close>. The dictionary \<^verbatim>\<open>intel\<close> has the three keys \<^verbatim>\<open>upi\<close>,
  \<^verbatim>\<open>accounts\<close> and \<^verbatim>\<open>urls\<close> throughout and is given as three fields;
  \<^verbatim>\<open>keyword_counts\<close> is a dictionary in insertion order. The field \<^verbatim>\<open>scam_score\<close> is
  never read or written and is left out. Every instance gets its own copy of the defaults.
\<close>

record SessionState =
  count :: nat
  intel_upi :: "string list"
  intel_accounts :: "string list"
  intel_urls :: "string list"
  history :: "history_entry list"
  callback_sent :: bool
  created_at :: real
  last_accessed :: real
  last_response_category :: "category option"
  keyword_counts :: "(string \<times> nat) list"

definition SessionState_new :: "real \<Rightarrow> SessionState" where
  "SessionState_new now =
     \<lparr>count = 0, intel_upi = [], intel_accounts = [], intel_urls = [], history = [],
      callback_sent = False, created_at = now, last_accessed = now,
      last_response_category = None, keyword_counts = []\<rparr>"

text \<open>\<^verbatim>\<open>sessions\<close>: an \<^verbatim>\<open>OrderedDict\<close>, the first entry the oldest.\<close>

type_synonym store = "(string \<times> SessionState) list"

text \<open>\<^verbatim>\<open>d.get(k, default)\<close>.\<close>

definition dict_get :: "('k \<times> 'v) list \<Rightarrow> 'k \<Rightarrow> 'v \<Rightarrow> 'v" where
  "dict_get d k dflt = (case map_of d k of None \<Rightarrow> dflt | Some v \<Rightarrow> v)"

section \<open>Intelligence extraction\<close>

record intel_extracted =
  upi :: "string list"
  accounts :: "string list"
  urls :: "string list"
  keywords_found :: "(string \<times> nat) list"

text \<open>The loop over \<^verbatim>\<open>SCAM_KEYWORDS\<close>, with \<^verbatim>\<open>keywords_found\<close> and \<^verbatim>\<open>keyword_score\<close>
  as its state.\<close>

fun scan_keywords :: "string list \<Rightarrow> string \<Rightarrow> (string \<times> nat) list \<times> nat \<Rightarrow> (string \<times> nat) list \<times> nat" where
  "scan_keywords [] message_lower acc = acc"
| "scan_keywords (keyword # rest) message_lower (found, keyword_score) =
     (let c = str_count keyword message_lower in
      if c > 0
      then scan_keywords rest message_lower (AList.update keyword c found, keyword_score + c)
      else scan_keywords rest message_lower (found, keyword_score))"

text \<open>The loop over \<^verbatim>\<open>keywords_found.items()\<close> that adds to the session's counts.\<close>

fun add_keyword_counts :: "(string \<times> nat) list \<Rightarrow> (string \<times> nat) list \<Rightarrow> (string \<times> nat) list" where
  "add_keyword_counts [] counts = counts"
| "add_keyword_counts ((keyword, c) # rest) counts =
     add_keyword_counts rest (AList.update keyword (dict_get counts keyword 0 + c) counts)"

definition extract_intelligence :: "string \<Rightarrow> SessionState \<Rightarrow> intel_extracted \<times> SessionState" where
  "extract_intelligence message session =
     (let intel = \<lparr>upi = [], accounts = [], urls = [], keywords_found = []\<rparr> in
      if length message < 10 then (intel, session)
      else
        let message_lower = lower message;
            (found, keyword_score) = scan_keywords SCAM_KEYWORDS message_lower ([], 0);
            intel = intel\<lparr>keywords_found := found\<rparr>;
            session = session\<lparr>keyword_counts := add_keyword_counts found (keyword_counts session)\<rparr>
        in if keyword_score > 0
           then (intel\<lparr>upi := UPI_PATTERN_findall message,
                       accounts := BANK_ACCOUNT_PATTERN_findall message,
                       urls := URL_PATTERN_findall message\<rparr>, session)
           else (intel, session))"

section \<open>Response generation\<close>

fun RESPONSES :: "category \<Rightarrow> reply_text list" where
  "RESPONSES early =
     [literal ''Hello? Yes, I am here. What is this about?'',
      literal ''I don't understand. Can you explain slowly?'',
      literal ''Is this about my pension? I'm not good with phones.'',
      literal ''Who is calling? I can't hear you properly.'',
      literal ''Wait, let me put on my hearing aid.'']"
| "RESPONSES middle =
     [literal ''Oh no, is my account really blocked? I'm worried!'',
      literal ''What should I do? Please help me, I don't want to lose my money.'',
      literal ''Should I give you my card details? I trust you.'',
      literal ''My son told me to be careful, but you sound official.'',
      literal ''How much money do I need to pay to fix this?'']"
| "RESPONSES late =
     [literal ''Wait, let me find my glasses. One minute please.'',
      literal ''My grandson is not home. Can you call back in 10 minutes?'',
      literal ''What is your name and company? I want to verify this.'',
      literal ''I need to write this down. Please speak slowly.'',
      literal ''Can you send me a letter instead? I don't trust phone calls.'']"

text \<open>\<^verbatim>\<open>random.choice(xs)\<close> on a non-empty list, the random index drawn being \<open>pick\<close>
  modulo the length.\<close>

definition random_choice :: "nat \<Rightarrow> 'a list \<Rightarrow> 'a" where
  "random_choice pick xs = xs ! (pick mod length xs)"

text \<open>Both branches of the test on \<^verbatim>\<open>last_response_category\<close> draw in the same way.\<close>

definition generate_response :: "nat \<Rightarrow> SessionState \<Rightarrow> reply_text \<times> SessionState" where
  "generate_response pick session =
     (let category = (if count session \<le> 5 then early
                      else if count session \<le> 10 then middle else late);
          available_responses = RESPONSES category;
          response = random_choice pick available_responses
      in (response, session\<lparr>last_response_category := Some category\<rparr>))"

section \<open>Request validation\<close>

text \<open>
  \<^verbatim>\<open>MessageRequest(**payload)\<close> raises unless the payload has the fields of the model
  with their types and passes the constraints below. The handler reads \<^verbatim>\<open>sessionId\<close>
  and \<^verbatim>\<open>message.text\<close> only, so a request is given by these two.
\<close>

record MessageRequest =
  sessionId :: string
  message_text :: string

text \<open>\<^verbatim>\<open>re.match(r'^[a-zA-Z0-9_-]+$', v)\<close>; the \<^verbatim>\<open>$\<close> also matches before a line feed
  that ends the text.\<close>

definition session_id_char :: "char \<Rightarrow> bool" where
  "session_id_char c = (is_ascii_alpha c \<or> is_digit c \<or> c = CHR ''_'' \<or> c = CHR ''-'')"

definition validate_session_id :: "string \<Rightarrow> bool" where
  "validate_session_id v =
     (takeWhile session_id_char v \<noteq> []
      \<and> (dropWhile session_id_char v = [] \<or> dropWhile session_id_char v = [CHR 0x0A]))"

definition suspicious_patterns :: "string list" where
  "suspicious_patterns = [''<script'', ''javascript:'', ''DROP TABLE'', ''SELECT *'']"

definition validate_message :: "string \<Rightarrow> bool" where
  "validate_message t =
     (list_all (\<lambda>pattern. \<not> str_contains (lower pattern) (lower t)) suspicious_patterns
      \<and> 1 \<le> length t \<and> length t \<le> 1000)"

definition MessageRequest_valid :: "MessageRequest \<Rightarrow> bool" where
  "MessageRequest_valid data =
     (1 \<le> length (sessionId data) \<and> length (sessionId data) \<le> 64
      \<and> validate_session_id (sessionId data) \<and> validate_message (message_text data))"

section \<open>The session store\<close>

text \<open>
  \<^verbatim>\<open>enforce_session_limit\<close>. The keys of a dictionary are distinct, so deleting the
  first key removes the first entry.
\<close>

function enforce_session_limit :: "store \<Rightarrow> store" where
  "enforce_session_limit sessions =
     (if length sessions > MAX_SESSIONS then enforce_session_limit (tl sessions) else sessions)"
  by pat_completeness auto
termination
  by (relation "measure length") auto

declare enforce_session_limit.simps [simp del]

text \<open>\<^verbatim>\<open>sessions.move_to_end(k)\<close> for a key of the dictionary.\<close>

definition move_to_end :: "string \<Rightarrow> SessionState \<Rightarrow> store \<Rightarrow> store" where
  "move_to_end k v sessions = AList.delete k sessions @ [(k, v)]"

text \<open>One cycle of \<^verbatim>\<open>session_cleanup_task\<close>, on the store.\<close>

definition expire_sessions :: "real \<Rightarrow> store \<Rightarrow> store" where
  "expire_sessions now sessions =
     (let ttl_threshold = now - 60 * real SESSION_TTL_MINUTES;
          expired_sessions = map fst (filter (\<lambda>(sid, state). last_accessed state < ttl_threshold) sessions)
      in foldl (\<lambda>d sid. AList.delete sid d) sessions expired_sessions)"

section \<open>The message handler\<close>

text \<open>
  The body of the \<^verbatim>\<open>try\<close> block of \<^verbatim>\<open>honeypot\<close>. The session is an object that the
  store refers to, so each of its assignments is an assignment in the store; what the body
  has assigned when an exception leaves it stays assigned. The program is the body with
  no fault planted, \<open>flt = None\<close>: validation, its first statement, is the only one that
  raises, and none of the calls behind it does on any input. A fault planted in one of
  these calls makes the call raise on entry; it says what the \<^verbatim>\<open>except\<close> branch would
  meet if the call did raise, and every statement below that is made for any \<open>flt\<close>
  holds for the program in particular. The order of the effects of the body on the
  scheduler and on the flag is the order of the list of effects.
\<close>

datatype fault = ExtractFault | ResponseFault | ScheduleFault

datatype exn = ValidationError | KeyError | InternalFault fault

datatype effect = CreateTask string | SetCallbackSent string

definition store_history :: "string \<Rightarrow> reply_text \<Rightarrow> SessionState \<Rightarrow> SessionState" where
  "store_history scam_text reply session =
     (let h = history session @ [\<lparr>scammer = scam_text, agent = reply\<rparr>] in
      session\<lparr>history :=
        (if length h > MAX_CONVERSATION_HISTORY
         then drop (length h - MAX_CONVERSATION_HISTORY) h else h)\<rparr>)"

definition should_callback :: "intel_extracted \<Rightarrow> SessionState \<Rightarrow> bool" where
  "should_callback intel session =
     (let total_keyword_score = sum_list (map snd (keyword_counts session));
          has_sensitive_data = (upi intel \<noteq> [] \<or> accounts intel \<noteq> [] \<or> urls intel \<noteq> []);
          scam_confirmed = (total_keyword_score \<ge> 3 \<and> has_sensitive_data)
      in (count session \<ge> 15 \<or> scam_confirmed) \<and> \<not> callback_sent session)"

definition session_steps ::
  "fault option \<Rightarrow> real \<Rightarrow> nat \<Rightarrow> string \<Rightarrow> string \<Rightarrow> SessionState
     \<Rightarrow> (exn + reply_text \<times> effect list) \<times> SessionState" where
  "session_steps flt now pick session_id scam_text session0 =
     (let session = session0\<lparr>last_accessed := now, count := count session0 + 1\<rparr> in
      if flt = Some ExtractFault then (Inl (InternalFault ExtractFault), session)
      else
        let (intel, session) = extract_intelligence scam_text session;
            session = session\<lparr>intel_upi := intel_upi session @ upi intel,
                              intel_accounts := intel_accounts session @ accounts intel,
                              intel_urls := intel_urls session @ urls intel\<rparr>
        in if flt = Some ResponseFault then (Inl (InternalFault ResponseFault), session)
           else
             let (reply, session) = generate_response pick session;
                 session = store_history scam_text reply session
             in if should_callback intel session
                then if flt = Some ScheduleFault
                     then (Inl (InternalFault ScheduleFault), session)
                     else (Inr (reply, [CreateTask session_id, SetCallbackSent session_id]),
                           session\<lparr>callback_sent := True\<rparr>)
                else (Inr (reply, []), session))"

definition try_body ::
  "fault option \<Rightarrow> real \<Rightarrow> nat \<Rightarrow> MessageRequest \<Rightarrow> store
     \<Rightarrow> (exn + reply_text \<times> effect list) \<times> store" where
  "try_body flt now pick data sessions0 =
     (if \<not> MessageRequest_valid data then (Inl ValidationError, sessions0)
      else
        let session_id = sessionId data;
            scam_text = message_text data;
            sessions = (if map_of sessions0 session_id = None
                        then enforce_session_limit (sessions0 @ [(session_id, SessionState_new now)])
                        else sessions0)
        in case map_of sessions session_id of
             None \<Rightarrow> (Inl KeyError, sessions)
           | Some session \<Rightarrow>
               let sessions = move_to_end session_id session sessions;
                   (result, session) = session_steps flt now pick session_id scam_text session
               in (result, AList.update session_id session sessions))"

definition fallback_reply :: reply_text where
  "fallback_reply = literal ''I'' @ [8217] @ literal ''m not sure what you mean. Can you explain?''"

text \<open>
  \<^verbatim>\<open>honeypot\<close> from the \<^verbatim>\<open>try\<close> on, for a request with the right API key and a payload
  with a \<^verbatim>\<open>message\<close>: the reply returned, the effects in their order, and the store.
\<close>

definition honeypot ::
  "fault option \<Rightarrow> real \<Rightarrow> nat \<Rightarrow> MessageRequest \<Rightarrow> store \<Rightarrow> (reply_text \<times> effect list) \<times> store" where
  "honeypot flt now pick data sessions =
     (case try_body flt now pick data sessions of
        (Inl e, sessions') \<Rightarrow> ((fallback_reply, []), sessions')
      | (Inr (reply, effects), sessions') \<Rightarrow> ((reply, effects), sessions'))"

section \<open>Runs of the service on the store\<close>

text \<open>
  What happens to the store, one event after the other: a request handled, or a cycle of
  the cleanup task. Behind the reading of the payload the handler has no suspension point
  (the one coroutine it awaits, \<^verbatim>\<open>extract_intelligence\<close>, awaits nothing), and a cycle
  of the cleanup task has none between its sleeps, so under the single-threaded event loop
  each of them runs in one piece and the events of a run follow one another.
\<close>

datatype event = Request "fault option" real nat MessageRequest | Cleanup real

fun step :: "event \<Rightarrow> store \<Rightarrow> effect list \<times> store" where
  "step (Request flt now pick data) sessions =
     (let ((reply, effects), sessions') = honeypot flt now pick data sessions in (effects, sessions'))"
| "step (Cleanup now) sessions = ([], expire_sessions now sessions)"

fun run :: "event list \<Rightarrow> store \<Rightarrow> effect list \<times> store" where
  "run [] sessions = ([], sessions)"
| "run (e # es) sessions =
     (let (effects, sessions') = step e sessions;
          (effects', sessions'') = run es sessions'
      in (effects @ effects', sessions''))"

text \<open>The flag of a session of the store.\<close>

definition sent_flag :: "string \<Rightarrow> store \<Rightarrow> bool" where
  "sent_flag sid sessions = (case map_of sessions sid of None \<Rightarrow> False | Some s \<Rightarrow> callback_sent s)"

text \<open>The steps of a run at which the flag of \<open>sid\<close> goes from false to true.\<close>

fun flag_rises :: "string \<Rightarrow> event list \<Rightarrow> store \<Rightarrow> nat" where
  "flag_rises sid [] sessions = 0"
| "flag_rises sid (e # es) sessions =
     (let sessions' = snd (step e sessions) in
      (if \<not> sent_flag sid sessions \<and> sent_flag sid sessions' then 1 else 0)
        + flag_rises sid es sessions')"

text \<open>A run is within one lifetime of \<open>sid\<close> when no step of it removes the session.\<close>

fun within_lifetime :: "string \<Rightarrow> event list \<Rightarrow> store \<Rightarrow> bool" where
  "within_lifetime sid [] sessions = True"
| "within_lifetime sid (e # es) sessions =
     (let sessions' = snd (step e sessions) in
      (map_of sessions sid = None \<or> map_of sessions' sid \<noteq> None)
        \<and> within_lifetime sid es sessions')"

section \<open>The callback dispatcher\<close>

text \<open>
  The dictionary \<^verbatim>\<open>metrics\<close>, without its entry \<^verbatim>\<open>average_scam_score\<close>, which the
  program never writes (the metrics endpoint computes the average anew), and the queue of
  failed reports.
\<close>

record Metrics =
  active_sessions :: nat
  total_callbacks_sent :: nat
  total_callbacks_failed :: nat
  total_requests :: nat
  circuit_breaker_active :: bool
  circuit_breaker_until :: "real option"

text \<open>The report. \<^verbatim>\<open>list(set(xs))\<close> holds the elements of \<open>xs\<close> once each, in an order
  that the program does not fix: it is given as the set.\<close>

record report =
  report_sessionId :: string
  scamDetected :: bool
  totalMessagesExchanged :: nat
  bankAccounts :: "string set"
  upiIds :: "string set"
  phishingLinks :: "string set"
  phoneNumbers :: "string list"
  suspiciousKeywords :: "string list"
  agentNotes :: string

record failed_callback =
  failed_session_id :: string
  failed_payload :: report
  failed_timestamp :: real

record Globals =
  metrics :: Metrics
  failed_callbacks :: "failed_callback list"

definition build_payload :: "string \<Rightarrow> SessionState \<Rightarrow> report" where
  "build_payload session_id session_data =
     \<lparr>report_sessionId = session_id,
      scamDetected = True,
      totalMessagesExchanged = count session_data,
      bankAccounts = set (intel_accounts session_data),
      upiIds = set (intel_upi session_data),
      phishingLinks = set (intel_urls session_data),
      phoneNumbers = [],
      suspiciousKeywords = map fst (keyword_counts session_data),
      agentNotes = ''Used urgency and account-block threats to extract payment info''\<rparr>"

text \<open>
  What one \<^verbatim>\<open>callback_client.post\<close> does is given from outside, by the index of the
  attempt: it returns a response with a status code, or it raises. The dispatcher's own
  actions on the outside are the posts and the sleeps, in their order.
\<close>

datatype post_result = Status nat | PostRaises

datatype action = Post nat | Sleep nat

text \<open>The loop \<^verbatim>\<open>for attempt in range(MAX_CALLBACK_RETRIES)\<close>: whether it returned
  \<^verbatim>\<open>True\<close> from inside, and its actions. The sleep is in the \<^verbatim>\<open>except\<close> branch.\<close>

fun retry_loop :: "(nat \<Rightarrow> post_result) \<Rightarrow> nat list \<Rightarrow> bool \<times> action list" where
  "retry_loop post [] = (False, [])"
| "retry_loop post (attempt # rest) =
     (case post attempt of
        Status code \<Rightarrow>
          if code = 200 then (True, [Post attempt])
          else (let (ok, acts) = retry_loop post rest in (ok, Post attempt # acts))
      | PostRaises \<Rightarrow>
          (let backoff = (if attempt < MAX_CALLBACK_RETRIES - 1 then [Sleep (2 ^ attempt)] else []);
               (ok, acts) = retry_loop post rest
           in (ok, Post attempt # backoff @ acts)))"

text \<open>The circuit-breaker check at the head of \<^verbatim>\<open>send_callback\<close>: \<^verbatim>\<open>None\<close> when the
  dispatch is skipped, otherwise the metrics to go on with. Comparing the time with an
  unset deadline raises \<^verbatim>\<open>TypeError\<close>.\<close>

datatype callback_result = Returned bool | RaisedTypeError

definition breaker_gate :: "real \<Rightarrow> Metrics \<Rightarrow> callback_result + Metrics" where
  "breaker_gate now m =
     (if circuit_breaker_active m
      then (case circuit_breaker_until m of
              None \<Rightarrow> Inl RaisedTypeError
            | Some until \<Rightarrow>
                if now < until then Inl (Returned False)
                else Inr (m\<lparr>circuit_breaker_active := False, total_callbacks_failed := 0\<rparr>))
      else Inr m)"

text \<open>The statements behind the loop, reached when every attempt has failed; \<open>now\<close> is the
  time then.\<close>

definition all_retries_failed :: "real \<Rightarrow> string \<Rightarrow> report \<Rightarrow> Globals \<Rightarrow> Globals" where
  "all_retries_failed now session_id payload g =
     (let m = (metrics g)\<lparr>total_callbacks_failed := total_callbacks_failed (metrics g) + 1\<rparr>;
          m = (if total_callbacks_failed m \<ge> CIRCUIT_BREAKER_THRESHOLD
               then m\<lparr>circuit_breaker_active := True,
                      circuit_breaker_until := Some (now + CIRCUIT_BREAKER_TIMEOUT)\<rparr>
               else m)
      in \<lparr>metrics = m,
          failed_callbacks = failed_callbacks g @
            [\<lparr>failed_session_id = session_id, failed_payload = payload, failed_timestamp = now\<rparr>]\<rparr>)"

text \<open>
  \<^verbatim>\<open>send_callback\<close>, run without another task in between: \<open>now\<close> is the time at the
  check of the breaker and \<open>now_failed\<close> the time behind the loop. It gives the result, the
  actions and the globals.
\<close>

definition send_callback ::
  "real \<Rightarrow> real \<Rightarrow> (nat \<Rightarrow> post_result) \<Rightarrow> string \<Rightarrow> SessionState \<Rightarrow> Globals
     \<Rightarrow> (callback_result \<times> action list) \<times> Globals" where
  "send_callback now now_failed post session_id session_data g =
     (case breaker_gate now (metrics g) of
        Inl r \<Rightarrow> ((r, []), g)
      | Inr m \<Rightarrow>
          let g = g\<lparr>metrics := m\<rparr>;
              payload = build_payload session_id session_data;
              (ok, acts) = retry_loop post [0..<MAX_CALLBACK_RETRIES]
          in if ok
             then ((Returned True, acts),
                   g\<lparr>metrics := m\<lparr>total_callbacks_sent := total_callbacks_sent m + 1\<rparr>\<rparr>)
             else ((Returned False, acts), all_retries_failed now_failed session_id payload g))"

section \<open>Concrete inputs\<close>

definition always_raises :: "nat \<Rightarrow> post_result" where
  "always_raises attempt = PostRaises"

definition always_500 :: "nat \<Rightarrow> post_result" where
  "always_500 attempt = Status 500"

definition globals_with :: "nat \<Rightarrow> bool \<Rightarrow> real option \<Rightarrow> Globals" where
  "globals_with failed active until =
     \<lparr>metrics = \<lparr>active_sessions = 0, total_callbacks_sent = 0, total_callbacks_failed = failed,
                 total_requests = 0, circuit_breaker_active = active,
                 circuit_breaker_until = until\<rparr>,
      failed_callbacks = []\<rparr>"

text \<open>
  The values of the locals \<^verbatim>\<open>keyword_score\<close> and \<^verbatim>\<open>keywords_found\<close> of
  \<^verbatim>\<open>extract_intelligence\<close> behind its first loop, as functions of the message.
\<close>

definition keyword_score :: "string \<Rightarrow> nat" where
  "keyword_score message = sum_list (map (\<lambda>k. str_count k (lower message)) SCAM_KEYWORDS)"

definition found_keywords :: "string \<Rightarrow> (string \<times> nat) list" where
  "found_keywords message =
     map (\<lambda>k. (k, str_count k (lower message)))
       (filter (\<lambda>k. 0 < str_count k (lower message)) SCAM_KEYWORDS)"

text \<open>
  In the words of the specification: the raw substring occurrences of a term in a text,
  one for every position of the text at which the term starts, overlapping or not.
\<close>

fun substring_occurrences :: "string \<Rightarrow> string \<Rightarrow> nat" where
  "substring_occurrences sub [] = 0"
| "substring_occurrences sub (c # cs) =
     (if take (length sub) (c # cs) = sub then 1 else 0) + substring_occurrences sub cs"

text \<open>A term none of whose proper suffixes is a prefix of it: two of its occurrences
  cannot overlap.\<close>

definition borderless :: "string \<Rightarrow> bool" where
  "borderless sub =
     (sub \<noteq> [] \<and> list_all (\<lambda>j. drop j sub \<noteq> take (length sub - j) sub) [1..<length sub])"

definition example_request :: MessageRequest where
  "example_request = \<lparr>sessionId = ''s1'', message_text = ''urgent verify otp pay ab@bcd''\<rparr>"


definition example_full_store :: store where
  "example_full_store =
     [(''s1'', (SessionState_new 0)
        \<lparr>history := map (\<lambda>n. \<lparr>scammer = ''earlier message'', agent = [n]\<rparr>)
                         [0, 1, 2, 3, 4, 5, 6, 7, 8, 9]\<rparr>)]"

section \<open>The dispatcher: retries and the circuit breaker\<close>

lemma range_retries: "[0..<MAX_CALLBACK_RETRIES] = [0, 1, 2]"
  by (simp add: MAX_CALLBACK_RETRIES_def upt_rec)

lemma retry_loop_always_500:
  "retry_loop always_500 [0..<MAX_CALLBACK_RETRIES] = (False, [Post 0, Post 1, Post 2])"
  unfolding range_retries by (simp add: always_500_def)

lemma retry_loop_always_raises:
  "retry_loop always_raises [0..<MAX_CALLBACK_RETRIES]
     = (False, [Post 0, Sleep 1, Post 1, Sleep 2, Post 2])"
  unfolding range_retries by (simp add: always_raises_def MAX_CALLBACK_RETRIES_def)

text \<open>
  C5, at the input the code fails on. Three attempts that each return the status 500 are
  made one behind the other with no sleep between them: the sleep of \<open>2 ^ attempt\<close>
  seconds is in the \<^verbatim>\<open>except\<close> branch only, so it is taken after an attempt that raised
  (1 second after the first, 2 seconds after the second, none after the third) and
  not after an attempt that returned a status other than 200.
\<close>

theorem retry_backoff_only_after_exception:
  "retry_loop always_500 [0..<MAX_CALLBACK_RETRIES] = (False, [Post 0, Post 1, Post 2])
   \<and> retry_loop always_raises [0..<MAX_CALLBACK_RETRIES]
       = (False, [Post 0, Sleep 1, Post 1, Sleep 2, Post 2])"
  by (simp only: retry_loop_always_500 retry_loop_always_raises)

text \<open>
  C4 as stated fails: the dispatch that brings the failure counter from 4 to 5 opens the
  breaker and leaves the counter at 5.
\<close>

theorem breaker_opens_without_reset_counterexample:
  "circuit_breaker_active
     (metrics (snd (send_callback 1000 1003 always_raises ''s1'' (SessionState_new 0)
                     (globals_with 4 False None))))
   \<and> total_callbacks_failed
       (metrics (snd (send_callback 1000 1003 always_raises ''s1'' (SessionState_new 0)
                       (globals_with 4 False None)))) = 5"
  by (simp add: send_callback_def breaker_gate_def all_retries_failed_def globals_with_def
      retry_loop_always_raises CIRCUIT_BREAKER_THRESHOLD_def Let_def)

text \<open>
  C4, amended. A dispatch that starts with the breaker closed, fails in every attempt and
  thereby brings the failure counter to 5 or more opens the breaker, with the deadline
  300 seconds after the time of the failure, and leaves the counter at the value reached.
  A dispatch that finds the breaker open before the deadline returns \<^verbatim>\<open>False\<close> with
  no action at all and with the globals, the counter among them, unchanged. A dispatch
  that finds the breaker open at or after the deadline does what it would do on the same
  globals with the breaker closed and the counter at zero.
\<close>

theorem circuit_breaker_behaviour:
  "(\<not> circuit_breaker_active (metrics g) \<longrightarrow> \<not> fst (retry_loop post [0..<MAX_CALLBACK_RETRIES])
      \<longrightarrow> CIRCUIT_BREAKER_THRESHOLD \<le> total_callbacks_failed (metrics g) + 1
      \<longrightarrow> circuit_breaker_active (metrics (snd (send_callback now now_failed post sid sd g)))
          \<and> circuit_breaker_until (metrics (snd (send_callback now now_failed post sid sd g)))
              = Some (now_failed + 300)
          \<and> total_callbacks_failed (metrics (snd (send_callback now now_failed post sid sd g)))
              = total_callbacks_failed (metrics g) + 1)
   \<and> (circuit_breaker_active (metrics g) \<longrightarrow> circuit_breaker_until (metrics g) = Some until
      \<longrightarrow> now < until
      \<longrightarrow> send_callback now now_failed post sid sd g = ((Returned False, []), g))
   \<and> (circuit_breaker_active (metrics g) \<longrightarrow> circuit_breaker_until (metrics g) = Some until
      \<longrightarrow> until \<le> now
      \<longrightarrow> send_callback now now_failed post sid sd g
          = send_callback now now_failed post sid sd
              (g\<lparr>metrics := (metrics g)\<lparr>circuit_breaker_active := False,
                                         total_callbacks_failed := 0\<rparr>\<rparr>))"
  by (auto simp: send_callback_def breaker_gate_def all_retries_failed_def Let_def
      CIRCUIT_BREAKER_TIMEOUT_def split: prod.splits)

theorem circuit_breaker_behaviour_witness:
  "circuit_breaker_until
     (metrics (snd (send_callback 1000 1003 always_raises ''s1'' (SessionState_new 0)
                     (globals_with 4 False None)))) = Some 1303
   \<and> send_callback 1100 1103 always_raises ''s1'' (SessionState_new 0)
        (globals_with 5 True (Some 1303))
       = ((Returned False, []), globals_with 5 True (Some 1303))
   \<and> send_callback 1400 1403 always_raises ''s1'' (SessionState_new 0)
        (globals_with 5 True (Some 1303))
       = send_callback 1400 1403 always_raises ''s1'' (SessionState_new 0)
           (globals_with 0 False (Some 1303))"
  using circuit_breaker_behaviour [where g = "globals_with 4 False None" and post = always_raises
      and now = 1000 and now_failed = 1003 and sid = "''s1''" and sd = "SessionState_new 0"]
    circuit_breaker_behaviour [where g = "globals_with 5 True (Some 1303)" and until = 1303
      and post = always_raises and now = 1100 and now_failed = 1103 and sid = "''s1''"
      and sd = "SessionState_new 0"]
    circuit_breaker_behaviour [where g = "globals_with 5 True (Some 1303)" and until = 1303
      and post = always_raises and now = 1400 and now_failed = 1403 and sid = "''s1''"
      and sd = "SessionState_new 0"]
  by (simp add: globals_with_def retry_loop_always_raises CIRCUIT_BREAKER_THRESHOLD_def)

section \<open>Extraction: keywords and patterns\<close>

lemma update_fresh: "k \<notin> fst ` set al \<Longrightarrow> AList.update k v al = al @ [(k, v)]"
  by (induction al) auto

lemma scan_keywords_score:
  "snd (scan_keywords ks ml (found, sc)) = sc + sum_list (map (\<lambda>k. str_count k ml) ks)"
  by (induction ks arbitrary: found sc) (auto simp: Let_def)

lemma scan_keywords_found:
  "distinct ks \<Longrightarrow> set ks \<inter> fst ` set found = {} \<Longrightarrow>
   fst (scan_keywords ks ml (found, sc))
     = found @ map (\<lambda>k. (k, str_count k ml)) (filter (\<lambda>k. 0 < str_count k ml) ks)"
proof (induction ks arbitrary: found sc)
  case Nil
  then show ?case by simp
next
  case (Cons k ks)
  show ?case
  proof (cases "0 < str_count k ml")
    case True
    from Cons.prems have fresh: "k \<notin> fst ` set found" by auto
    have disj: "set ks \<inter> fst ` set (found @ [(k, str_count k ml)]) = {}"
      using Cons.prems by auto
    from Cons.prems have d: "distinct ks" by simp
    show ?thesis
      using True Cons.IH [OF d disj] by (simp add: update_fresh [OF fresh] Let_def)
  next
    case False
    from Cons.prems have "distinct ks" "set ks \<inter> fst ` set found = {}" by auto
    from Cons.IH [OF this] False show ?thesis by (simp add: Let_def)
  qed
qed

lemma occurrences_drop:
  "(\<And>j. j < k \<Longrightarrow> take (length sub) (drop j xs) \<noteq> sub) \<Longrightarrow>
   substring_occurrences sub xs = substring_occurrences sub (drop k xs)"
proof (induction k arbitrary: xs)
  case 0
  then show ?case by simp
next
  case (Suc k)
  show ?case
  proof (cases xs)
    case Nil
    then show ?thesis by simp
  next
    case (Cons x xs')
    have "take (length sub) (drop 0 xs) \<noteq> sub" using Suc.prems [of 0] by simp
    then have a: "substring_occurrences sub xs = substring_occurrences sub xs'" using Cons by simp
    have "\<And>j. j < k \<Longrightarrow> take (length sub) (drop j xs') \<noteq> sub"
      using Suc.prems [of "Suc _"] Cons by simp
    from Suc.IH [OF this] a Cons show ?thesis by simp
  qed
qed

lemma borderless_no_overlap:
  assumes b: "borderless sub" and s: "take (length sub) s = sub"
    and j: "0 < j" "j < length sub"
  shows "take (length sub) (drop j s) \<noteq> sub"
proof
  assume e: "take (length sub) (drop j s) = sub"
  have "take (length sub - j) (take (length sub) (drop j s)) = take (length sub - j) (drop j s)"
    by simp
  also have "\<dots> = drop j (take (length sub) s)" by (simp add: drop_take)
  finally have "take (length sub - j) sub = drop j sub" using e s by simp
  moreover have "drop j sub \<noteq> take (length sub - j) sub"
    using b j by (auto simp: borderless_def list_all_iff)
  ultimately show False by simp
qed

lemma str_count_occurrences:
  "borderless sub \<Longrightarrow> str_count sub s = substring_occurrences sub s"
proof (induction sub s rule: str_count.induct)
  case (1 sub)
  then show ?case by (simp add: borderless_def)
next
  case (2 sub c cs)
  from "2.prems" have ne: "sub \<noteq> []" by (simp add: borderless_def)
  show ?case
  proof (cases "take (length sub) (c # cs) = sub")
    case True
    have "\<And>j. j < length sub - 1 \<Longrightarrow> take (length sub) (drop j cs) \<noteq> sub"
    proof -
      fix j assume "j < length sub - 1"
      then have "0 < Suc j" "Suc j < length sub" by auto
      from borderless_no_overlap [OF "2.prems" True this] show "take (length sub) (drop j cs) \<noteq> sub"
        by simp
    qed
    from occurrences_drop [OF this]
    have "substring_occurrences sub cs = substring_occurrences sub (drop (length sub - 1) cs)" .
    with True ne "2.IH"(1) "2.prems" show ?thesis by simp
  next
    case False
    with ne "2.IH"(2) "2.prems" show ?thesis by simp
  qed
qed

lemma SCAM_KEYWORDS_borderless: "list_all borderless SCAM_KEYWORDS"
  by (simp add: SCAM_KEYWORDS_def borderless_def upt_rec)

lemma SCAM_KEYWORDS_distinct: "distinct SCAM_KEYWORDS"
  by (simp add: SCAM_KEYWORDS_def)


lemma scan_SCAM_KEYWORDS:
  "scan_keywords SCAM_KEYWORDS (lower message) ([], 0) = (found_keywords message, keyword_score message)"
  using scan_keywords_found [OF SCAM_KEYWORDS_distinct, of "[]" "lower message" 0]
    scan_keywords_score [of SCAM_KEYWORDS "lower message" "[]" 0]
  by (simp add: prod_eq_iff found_keywords_def keyword_score_def)

lemma extract_intelligence_short:
  "length message < 10 \<Longrightarrow>
   extract_intelligence message session
     = (\<lparr>upi = [], accounts = [], urls = [], keywords_found = []\<rparr>, session)"
  by (simp add: extract_intelligence_def)

lemma extract_intelligence_long:
  "10 \<le> length message \<Longrightarrow>
   extract_intelligence message session
     = (\<lparr>upi = (if 0 < keyword_score message then UPI_PATTERN_findall message else []),
         accounts = (if 0 < keyword_score message then BANK_ACCOUNT_PATTERN_findall message else []),
         urls = (if 0 < keyword_score message then URL_PATTERN_findall message else []),
         keywords_found = found_keywords message\<rparr>,
        session\<lparr>keyword_counts := add_keyword_counts (found_keywords message) (keyword_counts session)\<rparr>)"
  by (simp add: extract_intelligence_def scan_SCAM_KEYWORDS Let_def)

lemma dict_get_update:
  "dict_get (AList.update k v al) k' d = (if k' = k then v else dict_get al k' d)"
  by (simp add: dict_get_def update_conv')

lemma add_keyword_counts_get:
  "dict_get (add_keyword_counts found counts) k 0
     = dict_get counts k 0 + sum_list (map snd (filter (\<lambda>p. fst p = k) found))"
proof (induction found arbitrary: counts)
  case Nil
  then show ?case by simp
next
  case (Cons p found)
  obtain k0 c where p: "p = (k0, c)" by (cases p)
  show ?case unfolding p by (simp add: Cons.IH dict_get_update)
qed

lemma found_keywords_sum:
  "sum_list (map snd (filter (\<lambda>p. fst p = k) (found_keywords message)))
     = (if k \<in> set SCAM_KEYWORDS then str_count k (lower message) else 0)"
proof -
  have "\<And>ks. distinct ks \<Longrightarrow>
      sum_list (map snd (filter (\<lambda>p. fst p = k)
        (map (\<lambda>k. (k, str_count k (lower message))) (filter (\<lambda>k. 0 < str_count k (lower message)) ks))))
      = (if k \<in> set ks then str_count k (lower message) else 0)"
  proof -
    fix ks :: "string list"
    show "distinct ks \<Longrightarrow>
      sum_list (map snd (filter (\<lambda>p. fst p = k)
        (map (\<lambda>k. (k, str_count k (lower message))) (filter (\<lambda>k. 0 < str_count k (lower message)) ks))))
      = (if k \<in> set ks then str_count k (lower message) else 0)"
      by (induction ks) auto
  qed
  from this [OF SCAM_KEYWORDS_distinct] show ?thesis by (simp add: found_keywords_def)
qed

lemma found_keywords_map_of:
  "map_of (found_keywords message) k
     = (if k \<in> set SCAM_KEYWORDS \<and> 0 < str_count k (lower message)
        then Some (str_count k (lower message)) else None)"
proof -
  have "\<And>ks. map_of (map (\<lambda>k. (k, str_count k (lower message)))
           (filter (\<lambda>k. 0 < str_count k (lower message)) ks)) k
      = (if k \<in> set ks \<and> 0 < str_count k (lower message)
         then Some (str_count k (lower message)) else None)"
  proof -
    fix ks :: "string list"
    show "map_of (map (\<lambda>k. (k, str_count k (lower message)))
           (filter (\<lambda>k. 0 < str_count k (lower message)) ks)) k
      = (if k \<in> set ks \<and> 0 < str_count k (lower message)
         then Some (str_count k (lower message)) else None)"
      by (induction ks) auto
  qed
  then show ?thesis by (simp add: found_keywords_def)
qed

lemma keyword_occurrences:
  "keyword \<in> set SCAM_KEYWORDS \<Longrightarrow> str_count keyword s = substring_occurrences keyword s"
  using SCAM_KEYWORDS_borderless by (simp add: list_all_iff str_count_occurrences)

text \<open>
  C10. For a message of at least 10 characters and a term of the vocabulary, the per-call
  count of the term is the number of positions of the lower-cased text at which the term
  starts (raw substring occurrences, inside longer words too; the term is absent from the
  per-call counts when there is none), and the session's cumulative count of the term
  grows by that number.
\<close>

theorem keywords_counted_as_substrings:
  assumes "10 \<le> length message" and "keyword \<in> set SCAM_KEYWORDS"
  shows "map_of (keywords_found (fst (extract_intelligence message session))) keyword
           = (if 0 < substring_occurrences keyword (lower message)
              then Some (substring_occurrences keyword (lower message)) else None)
         \<and> dict_get (keyword_counts (snd (extract_intelligence message session))) keyword 0
           = dict_get (keyword_counts session) keyword 0 + substring_occurrences keyword (lower message)"
  using assms
  by (simp add: extract_intelligence_long found_keywords_map_of add_keyword_counts_get
      found_keywords_sum keyword_occurrences)


lemma lower_example_1:
  "lower ''Confirmation for the accountant'' = ''confirmation for the accountant''"
  by code_simp

theorem keywords_counted_as_substrings_witness:
  "10 \<le> length ''Confirmation for the accountant'' \<and> ''confirm'' \<in> set SCAM_KEYWORDS
   \<and> map_of (keywords_found (fst (extract_intelligence ''Confirmation for the accountant''
         (SessionState_new 0)))) ''confirm'' = Some 1
   \<and> dict_get (keyword_counts (snd (extract_intelligence ''Confirmation for the accountant''
         (SessionState_new 0)))) ''confirm'' 0 = 1"
  using keywords_counted_as_substrings [of "''Confirmation for the accountant''" "''confirm''"
      "SessionState_new 0"]
  by (simp add: SCAM_KEYWORDS_def lower_example_1 SessionState_new_def dict_get_def)

text \<open>
  C7 as stated fails at its own example: \<^verbatim>\<open>a@bcd\<close> has a local part of one character
  and the pattern asks for two, so in a message of 12 characters with the scoring keyword
  \<^verbatim>\<open>urgent\<close> the scans run and no identifier is extracted.
\<close>

theorem upi_example_not_extracted_counterexample:
  "10 \<le> length ''urgent a@bcd''
   \<and> keywords_found (fst (extract_intelligence ''urgent a@bcd'' (SessionState_new 0)))
       = [(''urgent'', 1)]
   \<and> upi (fst (extract_intelligence ''urgent a@bcd'' (SessionState_new 0))) = []"
  by code_simp

lemma takeWhile_second:
  assumes "2 \<le> length (takeWhile P s)"
  shows "1 < length s \<and> P (s ! 1)"
proof -
  from assms have l: "1 < length (takeWhile P s)" by simp
  then have "takeWhile P s ! 1 = s ! 1" by (rule takeWhile_nth)
  moreover from l have "takeWhile P s ! 1 \<in> set (takeWhile P s)" by (rule nth_mem)
  then have "P (takeWhile P s ! 1)" by (rule set_takeWhileD [THEN conjunct2])
  moreover have "length (takeWhile P s) \<le> length s" by (rule length_takeWhile_le)
  ultimately show ?thesis using l by simp
qed

lemma upi_match_second:
  assumes "upi_match prev s = Some k"
  shows "2 \<le> k \<and> 1 < length s \<and> upi_local (s ! 1)"
proof -
  from assms have l: "2 \<le> length (takeWhile upi_local s)"
    by (auto simp: upi_match_def Let_def split: list.splits if_splits)
  from assms l have "2 \<le> k"
    by (auto simp: upi_match_def Let_def split: list.splits if_splits)
  with takeWhile_second [OF l] show ?thesis by simp
qed

lemma not_upi_local_at: "\<not> upi_local (CHR ''@'')"
  by (simp add: upi_local_def is_ascii_alpha_def is_digit_def ord_def)

lemma upi_match_not_example:
  assumes "upi_match prev s = Some k"
  shows "take k s \<noteq> ''a@bcd''"
proof
  assume e: "take k s = ''a@bcd''"
  from upi_match_second [OF assms] have k: "2 \<le> k" and l: "1 < length s" and u: "upi_local (s ! 1)"
    by simp_all
  from k have "take k s ! 1 = s ! 1" by simp
  with e have "s ! 1 = CHR ''@''" by simp
  with u not_upi_local_at show False by simp
qed

lemma findall_upi_not_example:
  "''a@bcd'' \<notin> set (findall upi_match prev s)"
proof (induction upi_match prev s rule: findall.induct)
  case (1 prev)
  then show ?case by simp
next
  case (2 prev c cs)
  show ?case
  proof (cases "upi_match prev (c # cs)")
    case None
    with 2 show ?thesis by simp
  next
    case (Some k)
    show ?thesis
    proof (cases k)
      case 0
      with Some 2 show ?thesis by simp
    next
      case (Suc n)
      from upi_match_not_example [OF Some] Suc
      have "take (Suc n) (c # cs) \<noteq> ''a@bcd''" by simp
      with Some Suc 2 show ?thesis by auto
    qed
  qed
qed

lemma example_never_extracted:
  "''a@bcd'' \<notin> set (upi (fst (extract_intelligence message session)))"
  by (simp add: extract_intelligence_def Let_def case_prod_beta UPI_PATTERN_findall_def
      findall_upi_not_example)

text \<open>
  C7, amended. A message shorter than 10 characters gives the empty result and leaves the
  session as it is. For a message of at least 10 characters the results of the three
  scans are what the three patterns find in the message when the per-call keyword score
  is positive, and are empty when it is zero. The example behind the theorem is the
  identifier \<^verbatim>\<open>ab@bcd\<close>, with a local part of two characters: alone it is not
  extracted, in a message of 13 characters with a scoring keyword it is, and in one
  without a keyword it is not. The identifier \<^verbatim>\<open>a@bcd\<close>, with a local part of one
  character, is among the identifiers extracted from no message at all.
\<close>

theorem extraction_gated_by_length_and_keywords:
  "(length message < 10 \<longrightarrow>
      extract_intelligence message session
        = (\<lparr>upi = [], accounts = [], urls = [], keywords_found = []\<rparr>, session))
   \<and> (10 \<le> length message \<and> 0 < keyword_score message \<longrightarrow>
        upi (fst (extract_intelligence message session)) = UPI_PATTERN_findall message
        \<and> accounts (fst (extract_intelligence message session)) = BANK_ACCOUNT_PATTERN_findall message
        \<and> urls (fst (extract_intelligence message session)) = URL_PATTERN_findall message)
   \<and> (10 \<le> length message \<and> keyword_score message = 0 \<longrightarrow>
        upi (fst (extract_intelligence message session)) = []
        \<and> accounts (fst (extract_intelligence message session)) = []
        \<and> urls (fst (extract_intelligence message session)) = []
        \<and> keywords_found (fst (extract_intelligence message session)) = [])
   \<and> ''a@bcd'' \<notin> set (upi (fst (extract_intelligence message session)))"
proof (intro conjI impI)
  assume "length message < 10"
  then show "extract_intelligence message session
        = (\<lparr>upi = [], accounts = [], urls = [], keywords_found = []\<rparr>, session)"
    by (rule extract_intelligence_short)
next
  assume a: "10 \<le> length message \<and> keyword_score message = 0"
  then have "\<forall>k \<in> set SCAM_KEYWORDS. str_count k (lower message) = 0"
    by (simp add: keyword_score_def)
  then have "found_keywords message = []"
    by (simp add: found_keywords_def filter_empty_conv)
  with a show "keywords_found (fst (extract_intelligence message session)) = []"
    by (simp add: extract_intelligence_long)
qed (simp_all add: extract_intelligence_long example_never_extracted)

lemma kw_score_example: "keyword_score ''urgent ab@bcd'' = 1"
  by code_simp

lemma kw_score_example_0: "keyword_score ''hello ab@bcd'' = 0"
  by code_simp

lemma upi_example: "UPI_PATTERN_findall ''urgent ab@bcd'' = [''ab@bcd'']"
  by code_simp

theorem extraction_gated_by_length_and_keywords_witness:
  "length ''ab@bcd'' < 10
   \<and> extract_intelligence ''ab@bcd'' (SessionState_new 0)
       = (\<lparr>upi = [], accounts = [], urls = [], keywords_found = []\<rparr>, SessionState_new 0)
   \<and> 10 \<le> length ''urgent ab@bcd'' \<and> 0 < keyword_score ''urgent ab@bcd''
   \<and> upi (fst (extract_intelligence ''urgent ab@bcd'' (SessionState_new 0))) = [''ab@bcd'']
   \<and> 10 \<le> length ''hello ab@bcd'' \<and> keyword_score ''hello ab@bcd'' = 0
   \<and> upi (fst (extract_intelligence ''hello ab@bcd'' (SessionState_new 0))) = []"
  using extraction_gated_by_length_and_keywords [of "''ab@bcd''" "SessionState_new 0"]
    extraction_gated_by_length_and_keywords [of "''urgent ab@bcd''" "SessionState_new 0"]
    extraction_gated_by_length_and_keywords [of "''hello ab@bcd''" "SessionState_new 0"]
    kw_score_example kw_score_example_0 upi_example
  by simp

section \<open>The handler: store, trigger and effects\<close>

lemma enforce_session_limit_drop:
  "enforce_session_limit sessions = drop (length sessions - MAX_SESSIONS) sessions"
proof (induction sessions rule: enforce_session_limit.induct)
  case (1 sessions)
  show ?case
  proof (cases "length sessions > MAX_SESSIONS")
    case True
    then have "length sessions - MAX_SESSIONS = Suc (length (tl sessions) - MAX_SESSIONS)"
      by simp
    then have "drop (length sessions - MAX_SESSIONS) sessions
        = drop (length (tl sessions) - MAX_SESSIONS) (tl sessions)"
      by (simp add: drop_Suc)
    with True "1.IH" show ?thesis
      by (subst enforce_session_limit.simps) simp
  next
    case False
    then show ?thesis by (subst enforce_session_limit.simps) simp
  qed
qed

lemma map_of_None_keys: "map_of al k = None \<longleftrightarrow> k \<notin> fst ` set al"
  by (simp add: map_of_eq_None_iff)

lemma delete_fresh_append:
  "k \<notin> fst ` set xs \<Longrightarrow> AList.delete k (xs @ [(k, w)]) = xs"
  by (induction xs) auto

lemma update_last_entry:
  "k \<notin> fst ` set xs \<Longrightarrow> AList.update k v (xs @ [(k, w)]) = xs @ [(k, v)]"
  by (induction xs) auto

lemma create_session:
  assumes "map_of sessions k = None"
  shows "enforce_session_limit (sessions @ [(k, v)])
           = drop (length sessions + 1 - MAX_SESSIONS) sessions @ [(k, v)]"
  by (simp add: enforce_session_limit_drop MAX_SESSIONS_def)

lemma fresh_drop: "k \<notin> fst ` set al \<Longrightarrow> k \<notin> fst ` set (drop n al)"
  by (auto dest: in_set_dropD)

lemma map_of_fresh_append: "k \<notin> fst ` set xs \<Longrightarrow> map_of (xs @ [(k, v)]) k = Some v"
  by (simp add: map_add_def map_of_None_keys [symmetric])

lemma touch_new_session:
  "k \<notin> fst ` set xs \<Longrightarrow>
   AList.update k v' (move_to_end k v (xs @ [(k, v)])) = xs @ [(k, v')]"
  by (simp add: move_to_end_def delete_fresh_append update_last_entry)

lemma touch_old_session:
  "AList.update k v' (move_to_end k v al) = AList.delete k al @ [(k, v')]"
  by (simp add: move_to_end_def update_last_entry delete_notin_dom)

lemma try_body_valid:
  assumes "MessageRequest_valid data"
  shows "try_body flt now pick data sessions =
     (fst (session_steps flt now pick (sessionId data) (message_text data)
             (dict_get sessions (sessionId data) (SessionState_new now))),
      (if map_of sessions (sessionId data) = None
       then drop (length sessions + 1 - MAX_SESSIONS) sessions
       else AList.delete (sessionId data) sessions)
      @ [(sessionId data,
          snd (session_steps flt now pick (sessionId data) (message_text data)
                (dict_get sessions (sessionId data) (SessionState_new now))))])"
proof (cases "map_of sessions (sessionId data)")
  case None
  then have "sessionId data \<notin> fst ` set sessions" by (simp add: map_of_None_keys)
  then have fresh: "sessionId data \<notin> fst ` set (drop n sessions)" for n
    by (rule fresh_drop)
  show ?thesis
    using assms None
    by (simp add: try_body_def create_session dict_get_def Let_def
        map_of_fresh_append [OF fresh] touch_new_session [OF fresh] del: map_of_append
        split: prod.splits)
next
  case (Some s)
  show ?thesis
    using assms Some
    by (simp add: try_body_def dict_get_def Let_def touch_old_session split: prod.splits)
qed

lemma try_body_invalid:
  "\<not> MessageRequest_valid data \<Longrightarrow> try_body flt now pick data sessions = (Inl ValidationError, sessions)"
  by (simp add: try_body_def)


lemma extract_intelligence_session:
  "snd (extract_intelligence m s) = s\<lparr>keyword_counts := keyword_counts (snd (extract_intelligence m s))\<rparr>"
  by (simp add: extract_intelligence_def Let_def split: prod.splits)

lemma extract_intelligence_fields [simp]:
  "count (snd (extract_intelligence m s)) = count s"
  "callback_sent (snd (extract_intelligence m s)) = callback_sent s"
  "history (snd (extract_intelligence m s)) = history s"
  by (simp_all add: extract_intelligence_def Let_def split: prod.splits)

lemma extract_intelligence_result:
  "fst (extract_intelligence m s) = fst (extract_intelligence m s')"
  by (simp add: extract_intelligence_def Let_def split: prod.splits)

lemma extract_intelligence_counts:
  "keyword_counts s = keyword_counts s' \<Longrightarrow>
   keyword_counts (snd (extract_intelligence m s)) = keyword_counts (snd (extract_intelligence m s'))"
  by (simp add: extract_intelligence_def Let_def split: prod.splits)

lemma generate_response_fields [simp]:
  "count (snd (generate_response pick s)) = count s"
  "callback_sent (snd (generate_response pick s)) = callback_sent s"
  "history (snd (generate_response pick s)) = history s"
  "keyword_counts (snd (generate_response pick s)) = keyword_counts s"
  by (simp_all add: generate_response_def Let_def)

lemma store_history_fields [simp]:
  "count (store_history t r s) = count s"
  "callback_sent (store_history t r s) = callback_sent s"
  "keyword_counts (store_history t r s) = keyword_counts s"
  by (simp_all add: store_history_def Let_def)

lemma store_history_history:
  "history (store_history t r s)
     = drop (length (history s) + 1 - MAX_CONVERSATION_HISTORY)
         (history s @ [\<lparr>scammer = t, agent = r\<rparr>])"
  by (simp add: store_history_def Let_def)

lemma store_history_length: "length (history (store_history t r s)) \<le> MAX_CONVERSATION_HISTORY"
  by (simp add: store_history_history MAX_CONVERSATION_HISTORY_def)

text \<open>The effects of a result of the body.\<close>

lemma session_steps_effects:
  "fst (session_steps flt now pick sid t s) = Inr (reply, effects) \<Longrightarrow>
   effects = [] \<or> effects = [CreateTask sid, SetCallbackSent sid]"
  by (auto simp: session_steps_def Let_def case_prod_beta split: if_splits)

lemma session_steps_count:
  "count (snd (session_steps flt now pick sid t s)) = count s + 1"
  by (simp add: session_steps_def Let_def case_prod_beta)

text \<open>The body without a planted fault, in one piece.\<close>

lemma session_steps_None:
  "session_steps None now pick sid t s =
     (let touched = s\<lparr>last_accessed := now, count := count s + 1\<rparr>;
          intel = fst (extract_intelligence t touched);
          extracted = snd (extract_intelligence t touched);
          appended = extracted\<lparr>intel_upi := intel_upi extracted @ upi intel,
                               intel_accounts := intel_accounts extracted @ accounts intel,
                               intel_urls := intel_urls extracted @ urls intel\<rparr>;
          reply = fst (generate_response pick appended);
          answered = store_history t reply (snd (generate_response pick appended))
      in if should_callback intel answered
         then (Inr (reply, [CreateTask sid, SetCallbackSent sid]), answered\<lparr>callback_sent := True\<rparr>)
         else (Inr (reply, []), answered))"
  by (simp add: session_steps_def Let_def case_prod_beta)

lemma session_steps_flag:
  "callback_sent (snd (session_steps flt now pick sid t s))
     = (callback_sent s \<or> (\<exists>reply. fst (session_steps flt now pick sid t s)
                                       = Inr (reply, [CreateTask sid, SetCallbackSent sid])))"
  by (auto simp: session_steps_def Let_def case_prod_beta should_callback_def)

lemma session_steps_fires_once:
  "fst (session_steps flt now pick sid t s) = Inr (reply, [CreateTask sid, SetCallbackSent sid])
   \<Longrightarrow> \<not> callback_sent s"
  by (auto simp: session_steps_def Let_def case_prod_beta should_callback_def split: if_splits)

lemma session_steps_history_length:
  "length (history s) \<le> MAX_CONVERSATION_HISTORY \<Longrightarrow>
   length (history (snd (session_steps flt now pick sid t s))) \<le> MAX_CONVERSATION_HISTORY"
  by (simp add: session_steps_def Let_def case_prod_beta store_history_length)


lemma honeypot_valid:
  assumes "MessageRequest_valid data"
  shows "honeypot flt now pick data sessions =
     ((case fst (session_steps flt now pick (sessionId data) (message_text data)
                  (dict_get sessions (sessionId data) (SessionState_new now))) of
         Inl e \<Rightarrow> (fallback_reply, [])
       | Inr x \<Rightarrow> x),
      (if map_of sessions (sessionId data) = None
       then drop (length sessions + 1 - MAX_SESSIONS) sessions
       else AList.delete (sessionId data) sessions)
      @ [(sessionId data,
          snd (session_steps flt now pick (sessionId data) (message_text data)
                (dict_get sessions (sessionId data) (SessionState_new now))))])"
  by (simp add: honeypot_def try_body_valid [OF assms] split: sum.splits)

lemma honeypot_invalid:
  "\<not> MessageRequest_valid data \<Longrightarrow>
   honeypot flt now pick data sessions = ((fallback_reply, []), sessions)"
  by (simp add: honeypot_def try_body_invalid)

lemma dict_get_fresh_append: "k \<notin> fst ` set xs \<Longrightarrow> dict_get (xs @ [(k, v)]) k d = v"
  by (simp add: dict_get_def map_of_fresh_append del: map_of_append)

lemma session_after:
  assumes "MessageRequest_valid data"
  shows "dict_get (snd (honeypot flt now pick data sessions)) (sessionId data) d
     = snd (session_steps flt now pick (sessionId data) (message_text data)
             (dict_get sessions (sessionId data) (SessionState_new now)))"
proof (cases "map_of sessions (sessionId data) = None")
  case True
  then have "sessionId data \<notin> fst ` set sessions" by (simp add: map_of_None_keys)
  then have fresh: "sessionId data \<notin> fst ` set (drop n sessions)" for n by (rule fresh_drop)
  show ?thesis
    by (simp add: honeypot_valid [OF assms] True dict_get_fresh_append [OF fresh])
next
  case False
  have fresh: "sessionId data \<notin> fst ` set (AList.delete (sessionId data) sessions)"
    by (rule delete_notin_dom)
  show ?thesis
    by (simp add: honeypot_valid [OF assms] False dict_get_fresh_append [OF fresh])
qed

lemma effects_valid:
  assumes "MessageRequest_valid data"
  shows "snd (fst (honeypot flt now pick data sessions))
     = (case fst (session_steps flt now pick (sessionId data) (message_text data)
                  (dict_get sessions (sessionId data) (SessionState_new now))) of
          Inl e \<Rightarrow> [] | Inr x \<Rightarrow> snd x)"
  by (simp add: honeypot_valid [OF assms] split: sum.splits)

lemma sent_flag_dict_get:
  "sent_flag sid sessions = callback_sent (dict_get sessions sid (SessionState_new now))"
  by (simp add: sent_flag_def dict_get_def SessionState_new_def split: option.splits)

text \<open>
  C2. For a request that passes validation and is handled with no fault, a dispatch is
  scheduled exactly when the flag of the session was false before the request and either
  the count of the session, this request included, is at least 15, or the session's
  cumulative keyword score, this request included, is at least 3 and the extraction of
  this request found a UPI identifier, an account number or a URL.
\<close>

theorem callback_trigger_iff:
  assumes "MessageRequest_valid data"
  shows "(snd (fst (honeypot None now pick data sessions)) \<noteq> [])
     \<longleftrightarrow> ((3 \<le> sum_list (map snd (keyword_counts
                  (dict_get (snd (honeypot None now pick data sessions)) (sessionId data)
                     (SessionState_new now))))
            \<and> (upi (fst (extract_intelligence (message_text data) (SessionState_new now))) \<noteq> []
               \<or> accounts (fst (extract_intelligence (message_text data) (SessionState_new now))) \<noteq> []
               \<or> urls (fst (extract_intelligence (message_text data) (SessionState_new now))) \<noteq> []))
          \<or> 15 \<le> count (dict_get (snd (honeypot None now pick data sessions)) (sessionId data)
                           (SessionState_new now)))
         \<and> \<not> sent_flag (sessionId data) sessions"
proof -
  let ?before = "dict_get sessions (sessionId data) (SessionState_new now)"
  have intel: "fst (extract_intelligence (message_text data) (SessionState_new now))
      = fst (extract_intelligence (message_text data)
               (?before\<lparr>last_accessed := now, count := count ?before + 1\<rparr>))"
    by (rule extract_intelligence_result)
  show ?thesis
    unfolding session_after [OF assms] effects_valid [OF assms] intel
      sent_flag_dict_get [of _ _ now]
    by (auto simp: session_steps_None Let_def should_callback_def)
qed


lemma example_request_valid: "MessageRequest_valid example_request"
  by code_simp

lemma example_request_effects:
  "snd (fst (honeypot None 5 0 example_request [])) = [CreateTask ''s1'', SetCallbackSent ''s1'']"
  by code_simp

theorem callback_trigger_iff_witness:
  "MessageRequest_valid example_request
   \<and> snd (fst (honeypot None 5 0 example_request [])) \<noteq> []
   \<and> \<not> sent_flag (sessionId example_request) []"
  using callback_trigger_iff [OF example_request_valid, of 5 0 "[]"] example_request_effects
    example_request_valid
  by simp

text \<open>
  C3 as stated fails: where the trigger fires, the handler creates the task first and
  sets the flag after it.
\<close>

theorem schedule_precedes_flag_counterexample:
  "MessageRequest_valid example_request
   \<and> snd (fst (honeypot None 5 0 example_request []))
       = [CreateTask ''s1'', SetCallbackSent ''s1'']"
  by (simp only: example_request_valid example_request_effects)

text \<open>
  C3, amended. Whatever the request, the handler has no effect on the scheduler and the
  flag, or it has exactly two: it schedules the dispatch of the session and, directly
  after it and before it returns, sets the flag of the session. The flag was false
  before the request and is true in the store when the handler returns.
\<close>

theorem flag_set_right_after_scheduling:
  "snd (fst (honeypot flt now pick data sessions)) = []
   \<or> (snd (fst (honeypot flt now pick data sessions))
         = [CreateTask (sessionId data), SetCallbackSent (sessionId data)]
       \<and> \<not> sent_flag (sessionId data) sessions
       \<and> sent_flag (sessionId data) (snd (honeypot flt now pick data sessions)))"
proof (cases "MessageRequest_valid data")
  case False
  then show ?thesis by (simp add: honeypot_invalid)
next
  case True
  let ?r = "session_steps flt now pick (sessionId data) (message_text data)
              (dict_get sessions (sessionId data) (SessionState_new now))"
  show ?thesis
  proof (cases "fst ?r")
    case (Inl e)
    then show ?thesis by (simp add: effects_valid [OF True])
  next
    case (Inr x)
    obtain reply effects where x: "x = (reply, effects)" by (cases x)
    from session_steps_effects [of flt now pick "sessionId data" "message_text data" _ reply effects]
      Inr x
    have "effects = [] \<or> effects = [CreateTask (sessionId data), SetCallbackSent (sessionId data)]"
      by simp
    then show ?thesis
    proof
      assume "effects = []"
      with Inr x show ?thesis by (simp add: effects_valid [OF True])
    next
      assume e: "effects = [CreateTask (sessionId data), SetCallbackSent (sessionId data)]"
      with Inr x have fired: "fst ?r = Inr (reply, [CreateTask (sessionId data), SetCallbackSent (sessionId data)])"
        by simp
      from session_steps_fires_once [OF fired]
      have before: "\<not> sent_flag (sessionId data) sessions"
        by (simp add: sent_flag_dict_get [of _ _ now])
      have "callback_sent (snd ?r)"
        using fired by (subst session_steps_flag) blast
      then have after: "sent_flag (sessionId data) (snd (honeypot flt now pick data sessions))"
        by (simp add: sent_flag_dict_get [of _ _ now] session_after [OF True])
      from fired before after show ?thesis by (simp add: effects_valid [OF True])
    qed
  qed
qed

theorem flag_set_right_after_scheduling_witness:
  "snd (fst (honeypot None 5 0 example_request []))
     = [CreateTask (sessionId example_request), SetCallbackSent (sessionId example_request)]
   \<and> \<not> sent_flag (sessionId example_request) []
   \<and> sent_flag (sessionId example_request) (snd (honeypot None 5 0 example_request []))"
  using flag_set_right_after_scheduling [of None 5 0 example_request "[]"]
    example_request_effects
  by simp


section \<open>The store bound and the history bound\<close>

lemma delete_present_length:
  assumes "map_of al k \<noteq> None"
  shows "length (AList.delete k al) < length al"
proof -
  from assms obtain v where "map_of al k = Some v" by auto
  then have "(k, v) \<in> set al" by (rule map_of_SomeD)
  then show ?thesis
    unfolding AList.delete_eq by (rule length_filter_less) simp
qed

lemma foldl_delete_length:
  "length (foldl (\<lambda>d k. AList.delete k d) al ks) \<le> length al"
proof (induction ks arbitrary: al)
  case Nil
  then show ?case by simp
next
  case (Cons k ks)
  have "length (foldl (\<lambda>d k. AList.delete k d) (AList.delete k al) ks) \<le> length (AList.delete k al)"
    by (rule Cons.IH)
  also have "\<dots> \<le> length al" by (rule length_delete_le)
  finally show ?case by simp
qed

lemma foldl_delete_subset:
  "set (foldl (\<lambda>d k. AList.delete k d) al ks) \<subseteq> set al"
proof (induction ks arbitrary: al)
  case Nil
  then show ?case by simp
next
  case (Cons k ks)
  have "set (foldl (\<lambda>d k. AList.delete k d) (AList.delete k al) ks) \<subseteq> set (AList.delete k al)"
    by (rule Cons.IH)
  also have "\<dots> \<subseteq> set al" by (auto simp: AList.delete_eq)
  finally show ?case by simp
qed

lemma honeypot_length:
  assumes "length sessions \<le> MAX_SESSIONS"
  shows "length (snd (honeypot flt now pick data sessions)) \<le> MAX_SESSIONS"
proof (cases "MessageRequest_valid data")
  case False
  with assms show ?thesis by (simp add: honeypot_invalid)
next
  case True
  show ?thesis
  proof (cases "map_of sessions (sessionId data) = None")
    case absent: True
    show ?thesis
      by (simp add: honeypot_valid [OF True] absent MAX_SESSIONS_def)
  next
    case present: False
    from delete_present_length [OF present] assms
    have "length (AList.delete (sessionId data) sessions) < MAX_SESSIONS" by simp
    then show ?thesis by (simp add: honeypot_valid [OF True] present)
  qed
qed

lemma step_length:
  "length sessions \<le> MAX_SESSIONS \<Longrightarrow> length (snd (step e sessions)) \<le> MAX_SESSIONS"
proof (cases e)
  case (Request flt now pick data)
  assume "length sessions \<le> MAX_SESSIONS"
  from honeypot_length [OF this, of flt now pick data] Request show ?thesis
    by (simp add: case_prod_beta)
next
  case (Cleanup now)
  assume a: "length sessions \<le> MAX_SESSIONS"
  have "length (expire_sessions now sessions) \<le> length sessions"
    by (simp add: expire_sessions_def Let_def foldl_delete_length)
  with a Cleanup show ?thesis by simp
qed

lemma run_length:
  "length sessions \<le> MAX_SESSIONS \<Longrightarrow> length (snd (run es sessions)) \<le> MAX_SESSIONS"
proof (induction es arbitrary: sessions)
  case Nil
  then show ?case by simp
next
  case (Cons e es)
  from step_length [OF Cons.prems] have "length (snd (step e sessions)) \<le> MAX_SESSIONS" .
  from Cons.IH [OF this] show ?case by (simp add: case_prod_beta)
qed

text \<open>
  C8. The store of any run of the service from the empty store holds at most 500
  sessions, and handling a request keeps a store of at most 500 sessions within that
  bound. After a validated request the session of the request is the last entry of the
  store, the most recently used one. When the session is new, the entries before it are
  the sessions of the store from before in their order, without as many of the first,
  least recently used ones as it takes to hold the bound; when it is not, they are the
  other sessions of the store in their order.
\<close>

theorem session_store_bounded_lru:
  "length (snd (run events [])) \<le> MAX_SESSIONS
   \<and> (length sessions \<le> MAX_SESSIONS \<longrightarrow>
        length (snd (honeypot flt now pick data sessions)) \<le> MAX_SESSIONS)
   \<and> (MessageRequest_valid data \<longrightarrow>
        (\<exists>session. snd (honeypot flt now pick data sessions)
           = (if map_of sessions (sessionId data) = None
              then drop (length sessions + 1 - MAX_SESSIONS) sessions
              else AList.delete (sessionId data) sessions)
             @ [(sessionId data, session)]))"
proof (intro conjI impI)
  show "length (snd (run events [])) \<le> MAX_SESSIONS"
    by (rule run_length) simp
next
  assume "length sessions \<le> MAX_SESSIONS"
  then show "length (snd (honeypot flt now pick data sessions)) \<le> MAX_SESSIONS"
    by (rule honeypot_length)
next
  assume "MessageRequest_valid data"
  from honeypot_valid [OF this, of flt now pick sessions]
  show "\<exists>session. snd (honeypot flt now pick data sessions)
           = (if map_of sessions (sessionId data) = None
              then drop (length sessions + 1 - MAX_SESSIONS) sessions
              else AList.delete (sessionId data) sessions)
             @ [(sessionId data, session)]"
    by simp
qed

theorem session_store_bounded_lru_witness:
  "length [(''s1'', SessionState_new 0), (''s2'', SessionState_new 0)] \<le> MAX_SESSIONS
   \<and> length (snd (honeypot None 5 0 example_request
                  [(''s1'', SessionState_new 0), (''s2'', SessionState_new 0)])) \<le> MAX_SESSIONS
   \<and> MessageRequest_valid example_request
   \<and> map fst (snd (honeypot None 5 0 example_request
                  [(''s1'', SessionState_new 0), (''s2'', SessionState_new 0)])) = [''s2'', ''s1'']"
  using session_store_bounded_lru [of "[]" "[(''s1'', SessionState_new 0), (''s2'', SessionState_new 0)]"
      None 5 0 example_request] example_request_valid
  by (auto simp: MAX_SESSIONS_def example_request_def)

lemma dict_get_history_bounded:
  assumes "list_all (\<lambda>p. length (history (snd p)) \<le> MAX_CONVERSATION_HISTORY) sessions"
  shows "length (history (dict_get sessions sid (SessionState_new now))) \<le> MAX_CONVERSATION_HISTORY"
proof (cases "map_of sessions sid")
  case None
  then show ?thesis by (simp add: dict_get_def SessionState_new_def)
next
  case (Some s)
  then have "(sid, s) \<in> set sessions" by (rule map_of_SomeD)
  with assms have "length (history s) \<le> MAX_CONVERSATION_HISTORY"
    by (auto simp: list_all_iff)
  with Some show ?thesis by (simp add: dict_get_def)
qed

lemma honeypot_history_bounded:
  assumes inv: "list_all (\<lambda>p. length (history (snd p)) \<le> MAX_CONVERSATION_HISTORY) sessions"
  shows "list_all (\<lambda>p. length (history (snd p)) \<le> MAX_CONVERSATION_HISTORY)
           (snd (honeypot flt now pick data sessions))"
proof (cases "MessageRequest_valid data")
  case False
  with inv show ?thesis by (simp add: honeypot_invalid)
next
  case True
  have kept: "list_all (\<lambda>p. length (history (snd p)) \<le> MAX_CONVERSATION_HISTORY)
      (if map_of sessions (sessionId data) = None
       then drop (length sessions + 1 - MAX_SESSIONS) sessions
       else AList.delete (sessionId data) sessions)"
    using inv by (auto simp: list_all_iff AList.delete_eq dest: in_set_dropD)
  have new: "length (history (snd (session_steps flt now pick (sessionId data) (message_text data)
                (dict_get sessions (sessionId data) (SessionState_new now)))))
      \<le> MAX_CONVERSATION_HISTORY"
    by (rule session_steps_history_length) (rule dict_get_history_bounded [OF inv])
  from kept new show ?thesis
    by (simp add: honeypot_valid [OF True])
qed

lemma step_history_bounded:
  assumes inv: "list_all (\<lambda>p. length (history (snd p)) \<le> MAX_CONVERSATION_HISTORY) sessions"
  shows "list_all (\<lambda>p. length (history (snd p)) \<le> MAX_CONVERSATION_HISTORY)
           (snd (step e sessions))"
proof (cases e)
  case (Request flt now pick data)
  from honeypot_history_bounded [OF inv, of flt now pick data] Request show ?thesis
    by (simp add: case_prod_beta)
next
  case (Cleanup now)
  have "set (expire_sessions now sessions) \<subseteq> set sessions"
    by (simp add: expire_sessions_def Let_def foldl_delete_subset)
  with inv Cleanup show ?thesis by (auto simp: list_all_iff)
qed

lemma run_history_bounded:
  "list_all (\<lambda>p. length (history (snd p)) \<le> MAX_CONVERSATION_HISTORY) sessions \<Longrightarrow>
   list_all (\<lambda>p. length (history (snd p)) \<le> MAX_CONVERSATION_HISTORY) (snd (run es sessions))"
proof (induction es arbitrary: sessions)
  case Nil
  then show ?case by simp
next
  case (Cons e es)
  from step_history_bounded [OF Cons.prems]
  have "list_all (\<lambda>p. length (history (snd p)) \<le> MAX_CONVERSATION_HISTORY) (snd (step e sessions))" .
  from Cons.IH [OF this] show ?case by (simp add: case_prod_beta)
qed

lemma session_steps_returns:
  "\<exists>reply effects. fst (session_steps None now pick sid t s) = Inr (reply, effects)"
  by (simp add: session_steps_None Let_def)

lemma session_steps_history:
  assumes "fst (session_steps None now pick sid t s) = Inr (reply, effects)"
  shows "history (snd (session_steps None now pick sid t s))
     = drop (length (history s) + 1 - MAX_CONVERSATION_HISTORY)
         (history s @ [\<lparr>scammer = t, agent = reply\<rparr>])"
  using assms
  by (auto simp: session_steps_None Let_def store_history_history split: if_splits)

text \<open>
  C9. After a validated request handled with no fault, the history of its session is the
  history from before with the pair of the incoming text and the reply behind it, without
  as many of its first, oldest entries as it takes to hold 10: the others keep their
  order. It has at most 10 entries, and so has the history of every session of any run
  of the service from the empty store.
\<close>

theorem history_bounded_oldest_dropped:
  "(MessageRequest_valid data \<longrightarrow>
      history (dict_get (snd (honeypot None now pick data sessions)) (sessionId data)
                 (SessionState_new now))
        = drop (length (history (dict_get sessions (sessionId data) (SessionState_new now))) + 1
                  - MAX_CONVERSATION_HISTORY)
            (history (dict_get sessions (sessionId data) (SessionState_new now))
               @ [\<lparr>scammer = message_text data,
                    agent = fst (fst (honeypot None now pick data sessions))\<rparr>])
      \<and> length (history (dict_get (snd (honeypot None now pick data sessions)) (sessionId data)
                 (SessionState_new now))) \<le> MAX_CONVERSATION_HISTORY)
   \<and> list_all (\<lambda>p. length (history (snd p)) \<le> MAX_CONVERSATION_HISTORY) (snd (run events []))"
proof (intro conjI impI)
  show "list_all (\<lambda>p. length (history (snd p)) \<le> MAX_CONVERSATION_HISTORY) (snd (run events []))"
    by (rule run_history_bounded) simp
next
  assume v: "MessageRequest_valid data"
  let ?r = "session_steps None now pick (sessionId data) (message_text data)
              (dict_get sessions (sessionId data) (SessionState_new now))"
  obtain reply effects where r: "fst ?r = Inr (reply, effects)"
    using session_steps_returns by blast
  then have reply: "fst (fst (honeypot None now pick data sessions)) = reply"
    by (simp add: honeypot_valid [OF v])
  from session_steps_history [OF r]
  show h: "history (dict_get (snd (honeypot None now pick data sessions)) (sessionId data)
                 (SessionState_new now))
        = drop (length (history (dict_get sessions (sessionId data) (SessionState_new now))) + 1
                  - MAX_CONVERSATION_HISTORY)
            (history (dict_get sessions (sessionId data) (SessionState_new now))
               @ [\<lparr>scammer = message_text data,
                    agent = fst (fst (honeypot None now pick data sessions))\<rparr>])"
    by (simp add: session_after [OF v] reply)
  show "length (history (dict_get (snd (honeypot None now pick data sessions)) (sessionId data)
                 (SessionState_new now))) \<le> MAX_CONVERSATION_HISTORY"
    unfolding h by (simp add: MAX_CONVERSATION_HISTORY_def)
qed

theorem history_bounded_oldest_dropped_witness:
  "MessageRequest_valid example_request
   \<and> map agent (history (dict_get example_full_store ''s1'' (SessionState_new 5)))
       = [[0], [1], [2], [3], [4], [5], [6], [7], [8], [9]]
   \<and> map agent (history (dict_get (snd (honeypot None 5 0 example_request example_full_store))
                             ''s1'' (SessionState_new 5)))
       = [[1], [2], [3], [4], [5], [6], [7], [8], [9],
          fst (fst (honeypot None 5 0 example_request example_full_store))]"
  using history_bounded_oldest_dropped [of example_request 5 0 example_full_store "[]"]
    example_request_valid
  by (simp add: example_full_store_def dict_get_def example_request_def
      MAX_CONVERSATION_HISTORY_def)

section \<open>The callback is scheduled at most once\<close>

lemma map_of_drop_distinct:
  assumes "distinct (map fst al)" and "map_of (drop n al) k = Some v"
  shows "map_of al k = Some v"
proof -
  from assms(2) have "(k, v) \<in> set (drop n al)" by (rule map_of_SomeD)
  then have "(k, v) \<in> set al" by (rule in_set_dropD)
  with assms(1) show ?thesis by simp
qed

lemma map_of_foldl_delete:
  "map_of (foldl (\<lambda>d k. AList.delete k d) al ks) x = (if x \<in> set ks then None else map_of al x)"
  by (induction ks arbitrary: al) (auto simp: delete_conv')

lemma distinct_foldl_delete:
  "distinct (map fst al) \<Longrightarrow> distinct (map fst (foldl (\<lambda>d k. AList.delete k d) al ks))"
  by (induction ks arbitrary: al) (auto simp: distinct_delete)

lemma honeypot_distinct:
  assumes "distinct (map fst sessions)"
  shows "distinct (map fst (snd (honeypot flt now pick data sessions)))"
proof (cases "MessageRequest_valid data")
  case False
  with assms show ?thesis by (simp add: honeypot_invalid)
next
  case True
  show ?thesis
  proof (cases "map_of sessions (sessionId data) = None")
    case absent: True
    then have "sessionId data \<notin> fst ` set sessions" by (simp add: map_of_None_keys)
    then have "sessionId data \<notin> fst ` set (drop n sessions)" for n by (rule fresh_drop)
    moreover have "distinct (map fst (drop n sessions))" for n
      using assms by (simp add: drop_map [symmetric])
    ultimately show ?thesis
      by (simp add: honeypot_valid [OF True] absent)
  next
    case present: False
    have "sessionId data \<notin> fst ` set (AList.delete (sessionId data) sessions)"
      by (rule delete_notin_dom)
    moreover have "distinct (map fst (AList.delete (sessionId data) sessions))"
      using assms by (rule distinct_delete)
    ultimately show ?thesis
      by (simp add: honeypot_valid [OF True] present)
  qed
qed

lemma step_distinct:
  "distinct (map fst sessions) \<Longrightarrow> distinct (map fst (snd (step e sessions)))"
  by (cases e)
    (simp_all add: case_prod_beta honeypot_distinct expire_sessions_def Let_def distinct_foldl_delete)

text \<open>A session of the store behind a request is the session of the request, as the body
  left it, or a session of the store from before, as it was.\<close>

lemma honeypot_lookup:
  assumes d: "distinct (map fst sessions)"
    and l: "map_of (snd (honeypot flt now pick data sessions)) sid = Some s'"
  shows "(MessageRequest_valid data \<and> sessionId data = sid
          \<and> s' = snd (session_steps flt now pick sid (message_text data)
                        (dict_get sessions sid (SessionState_new now))))
         \<or> (\<not> (MessageRequest_valid data \<and> sessionId data = sid) \<and> map_of sessions sid = Some s')"
proof (cases "MessageRequest_valid data")
  case False
  with l show ?thesis by (simp add: honeypot_invalid)
next
  case True
  show ?thesis
  proof (cases "sessionId data = sid")
    case same: True
    from l have "dict_get (snd (honeypot flt now pick data sessions)) sid (SessionState_new now) = s'"
      by (simp add: dict_get_def)
    with session_after [OF True, of flt now pick sessions "SessionState_new now"] same True
    show ?thesis by simp
  next
    case other: False
    show ?thesis
    proof (cases "map_of sessions (sessionId data) = None")
      case absent: True
      from l other have "map_of (drop (length sessions + 1 - MAX_SESSIONS) sessions) sid = Some s'"
        by (simp add: honeypot_valid [OF True] absent map_add_def split: option.splits if_splits)
      from map_of_drop_distinct [OF d this] other show ?thesis by simp
    next
      case present: False
      from l other have "map_of (AList.delete (sessionId data) sessions) sid = Some s'"
        by (simp add: honeypot_valid [OF True] present map_add_def split: option.splits if_splits)
      with other show ?thesis by (simp add: delete_conv')
    qed
  qed
qed

lemma honeypot_effects:
  "snd (fst (honeypot flt now pick data sessions)) = []
   \<or> (MessageRequest_valid data
       \<and> snd (fst (honeypot flt now pick data sessions))
           = [CreateTask (sessionId data), SetCallbackSent (sessionId data)]
       \<and> (\<exists>reply. fst (session_steps flt now pick (sessionId data) (message_text data)
                          (dict_get sessions (sessionId data) (SessionState_new now)))
                    = Inr (reply, [CreateTask (sessionId data), SetCallbackSent (sessionId data)])))"
proof (cases "MessageRequest_valid data")
  case False
  then show ?thesis by (simp add: honeypot_invalid)
next
  case True
  let ?r = "session_steps flt now pick (sessionId data) (message_text data)
              (dict_get sessions (sessionId data) (SessionState_new now))"
  show ?thesis
  proof (cases "fst ?r")
    case (Inl e)
    then show ?thesis by (simp add: effects_valid [OF True])
  next
    case (Inr x)
    obtain reply effects where x: "x = (reply, effects)" by (cases x)
    from session_steps_effects [of flt now pick "sessionId data" "message_text data" _ reply effects]
      Inr x
    have "effects = [] \<or> effects = [CreateTask (sessionId data), SetCallbackSent (sessionId data)]"
      by simp
    with Inr x True show ?thesis by (auto simp: effects_valid [OF True])
  qed
qed

lemma honeypot_dispatch:
  "count_list (snd (fst (honeypot flt now pick data sessions))) (CreateTask sid) \<le> 1
   \<and> (count_list (snd (fst (honeypot flt now pick data sessions))) (CreateTask sid) = 1 \<longrightarrow>
        \<not> sent_flag sid sessions \<and> sent_flag sid (snd (honeypot flt now pick data sessions)))"
proof -
  let ?r = "session_steps flt now pick (sessionId data) (message_text data)
              (dict_get sessions (sessionId data) (SessionState_new now))"
  from honeypot_effects [of flt now pick data sessions]
  show ?thesis
  proof
    assume "snd (fst (honeypot flt now pick data sessions)) = []"
    then show ?thesis by simp
  next
    assume a: "MessageRequest_valid data
       \<and> snd (fst (honeypot flt now pick data sessions))
           = [CreateTask (sessionId data), SetCallbackSent (sessionId data)]
       \<and> (\<exists>reply. fst ?r = Inr (reply, [CreateTask (sessionId data), SetCallbackSent (sessionId data)]))"
    then have v: "MessageRequest_valid data" by simp
    from a obtain reply where
      fired: "fst ?r = Inr (reply, [CreateTask (sessionId data), SetCallbackSent (sessionId data)])"
      by blast
    from session_steps_fires_once [OF fired]
    have before: "\<not> sent_flag (sessionId data) sessions"
      by (simp add: sent_flag_dict_get [of _ _ now])
    have "callback_sent (snd ?r)"
      using fired by (subst session_steps_flag) blast
    then have after: "sent_flag (sessionId data) (snd (honeypot flt now pick data sessions))"
      by (simp add: sent_flag_dict_get [of _ _ now] session_after [OF v])
    from a before after show ?thesis by auto
  qed
qed

lemma honeypot_flag_kept:
  assumes d: "distinct (map fst sessions)"
    and f: "sent_flag sid sessions"
    and p: "map_of (snd (honeypot flt now pick data sessions)) sid \<noteq> None"
  shows "sent_flag sid (snd (honeypot flt now pick data sessions))"
proof -
  from p obtain s' where l: "map_of (snd (honeypot flt now pick data sessions)) sid = Some s'"
    by auto
  from honeypot_lookup [OF d l] show ?thesis
  proof
    assume a: "MessageRequest_valid data \<and> sessionId data = sid
          \<and> s' = snd (session_steps flt now pick sid (message_text data)
                        (dict_get sessions sid (SessionState_new now)))"
    from f have "callback_sent (dict_get sessions sid (SessionState_new now))"
      by (simp add: sent_flag_dict_get [of _ _ now])
    then have "callback_sent s'"
      using a by (simp add: session_steps_flag)
    with l show ?thesis by (simp add: sent_flag_def)
  next
    assume "\<not> (MessageRequest_valid data \<and> sessionId data = sid) \<and> map_of sessions sid = Some s'"
    with f l show ?thesis by (simp add: sent_flag_def)
  qed
qed

lemma step_dispatch:
  "count_list (fst (step e sessions)) (CreateTask sid) \<le> 1
   \<and> (count_list (fst (step e sessions)) (CreateTask sid) = 1 \<longrightarrow>
        \<not> sent_flag sid sessions \<and> sent_flag sid (snd (step e sessions)))"
proof (cases e)
  case (Request flt now pick data)
  with honeypot_dispatch [of flt now pick data sessions sid] show ?thesis
    by (simp add: case_prod_beta)
next
  case (Cleanup now)
  then show ?thesis by simp
qed

lemma step_flag_kept:
  assumes d: "distinct (map fst sessions)"
    and f: "sent_flag sid sessions"
    and p: "map_of (snd (step e sessions)) sid \<noteq> None"
  shows "sent_flag sid (snd (step e sessions))"
proof (cases e)
  case (Request flt now pick data)
  with p have "map_of (snd (honeypot flt now pick data sessions)) sid \<noteq> None"
    by (simp add: case_prod_beta)
  from honeypot_flag_kept [OF d f this] Request show ?thesis
    by (simp add: case_prod_beta)
next
  case (Cleanup now)
  from p obtain s' where "map_of (snd (step e sessions)) sid = Some s'" by auto
  with Cleanup have "map_of sessions sid = Some s'"
    by (simp add: expire_sessions_def Let_def map_of_foldl_delete split: if_splits)
  with f \<open>map_of (snd (step e sessions)) sid = Some s'\<close> show ?thesis
    by (simp add: sent_flag_def)
qed

lemma sent_flag_present: "sent_flag sid sessions \<Longrightarrow> map_of sessions sid \<noteq> None"
  by (auto simp: sent_flag_def split: option.splits)

lemma run_once:
  assumes "distinct (map fst sessions)" and "within_lifetime sid events sessions"
  shows "count_list (fst (run events sessions)) (CreateTask sid) + flag_rises sid events sessions
           \<le> (if sent_flag sid sessions then 0 else 2)
         \<and> count_list (fst (run events sessions)) (CreateTask sid) \<le> 1
         \<and> flag_rises sid events sessions \<le> 1"
  using assms
proof (induction events arbitrary: sessions)
  case Nil
  then show ?case by simp
next
  case (Cons e es)
  let ?s' = "snd (step e sessions)"
  let ?d = "count_list (fst (step e sessions)) (CreateTask sid)"
  from Cons.prems(1) have d': "distinct (map fst ?s')" by (rule step_distinct)
  from Cons.prems(2) have l': "within_lifetime sid es ?s'"
    and keep: "map_of sessions sid = None \<or> map_of ?s' sid \<noteq> None"
    by (simp_all add: Let_def)
  note IH = Cons.IH [OF d' l']
  have run: "count_list (fst (run (e # es) sessions)) (CreateTask sid)
      = ?d + count_list (fst (run es ?s')) (CreateTask sid)"
    by (simp add: case_prod_beta)
  have rises: "flag_rises sid (e # es) sessions
      = (if \<not> sent_flag sid sessions \<and> sent_flag sid ?s' then 1 else 0) + flag_rises sid es ?s'"
    by (simp add: Let_def)
  note sd = step_dispatch [of e sessions sid]
  show ?case
  proof (cases "sent_flag sid sessions")
    case True
    with keep have "map_of ?s' sid \<noteq> None" by (auto dest: sent_flag_present)
    from step_flag_kept [OF Cons.prems(1) True this] have after: "sent_flag sid ?s'" .
    from sd True have "?d = 0" by auto
    with IH after True show ?thesis unfolding run rises by simp
  next
    case False
    show ?thesis
    proof (cases "sent_flag sid ?s'")
      case after: True
      with IH False sd show ?thesis unfolding run rises by auto
    next
      case after: False
      with sd have "?d = 0" by auto
      with IH False after show ?thesis unfolding run rises by auto
    qed
  qed
qed

text \<open>
  C1. In a run of the service in which the session \<open>sid\<close> is never removed from the
  store (one lifetime of the session: no eviction and no expiry of it, from a store with
  one entry per session), the flag of the session goes from false to true at most once,
  and at most one dispatch is scheduled for the session, whatever the requests are and
  however many of them meet the conditions of the trigger.
\<close>

theorem callback_sent_at_most_once:
  assumes "distinct (map fst sessions)" and "within_lifetime sid events sessions"
  shows "flag_rises sid events sessions \<le> 1
         \<and> count_list (fst (run events sessions)) (CreateTask sid) \<le> 1"
  using run_once [OF assms] by simp

lemma example_run_effects:
  "fst (run [Request None 5 0 example_request,
             Request None 6 1 example_request] [])
     = [CreateTask ''s1'', SetCallbackSent ''s1'']"
  by code_simp

lemma example_run_lifetime:
  "within_lifetime ''s1'' [Request None 5 0 example_request,
             Request None 6 1 example_request] []"
  by code_simp

theorem callback_sent_at_most_once_witness:
  "distinct (map fst ([] :: store))
   \<and> within_lifetime ''s1'' [Request None 5 0 example_request,
             Request None 6 1 example_request] []
   \<and> count_list (fst (run [Request None 5 0 example_request,
             Request None 6 1 example_request] [])) (CreateTask ''s1'') = 1
   \<and> flag_rises ''s1'' [Request None 5 0 example_request,
             Request None 6 1 example_request] [] \<le> 1"
  using callback_sent_at_most_once [of "[]" "''s1''"
      "[Request None 5 0 example_request,
        Request None 6 1 example_request]"]
    example_run_effects example_run_lifetime
  by simp

section \<open>The handler: faults\<close>





end
